theory Spec2Isabelle
  imports Main
begin

section \<open>Ranges\<close>

text \<open>
  A \<open>Range\<close> is the TypeScript tuple \<open>[number, number]\<close>. The offsets are modelled as
  unbounded integers. A JavaScript string is modelled as a \<open>string\<close> whose characters are
  its code units (the model covers the code units below 256).
\<close>

type_synonym Range = "int \<times> int"

subsection \<open>normalizeRanges\<close>

text \<open>
  The comparator \<open>(a, b) => a[0] - b[0] || a[1] - b[1]\<close>: the first difference when it is
  not zero, the second difference otherwise.
\<close>

definition range_cmp :: "Range \<Rightarrow> Range \<Rightarrow> int" where
  "range_cmp a b = (if fst a - fst b \<noteq> 0 then fst a - fst b else snd a - snd b)"

text \<open>
  \<open>Array.prototype.sort\<close> is a stable sort by the comparator. A stable sort by a consistent
  comparator has one result only, computed here by insertion: an element is put before
  the first later element that does not compare smaller than it.
\<close>

fun js_insert :: "('a \<Rightarrow> 'a \<Rightarrow> int) \<Rightarrow> 'a \<Rightarrow> 'a list \<Rightarrow> 'a list" where
  "js_insert cmp x [] = [x]"
| "js_insert cmp x (y # ys) = (if cmp x y \<le> 0 then x # y # ys else y # js_insert cmp x ys)"

definition js_sort :: "('a \<Rightarrow> 'a \<Rightarrow> int) \<Rightarrow> 'a list \<Rightarrow> 'a list" where
  "js_sort cmp xs = foldr (js_insert cmp) xs []"

definition normalizeRanges :: "Range list \<Rightarrow> Range list" where
  "normalizeRanges ranges = js_sort range_cmp (map (\<lambda>(a, b). (min a b, max a b)) ranges)"

subsection \<open>removeDuplicates\<close>

text \<open>\<open>JSON.stringify\<close> of a pair of integers: \<open>[a,b]\<close> in decimal notation.\<close>

definition digit_char :: "nat \<Rightarrow> char" where
  "digit_char d = char_of (48 + d)"

function show_nat :: "nat \<Rightarrow> string" where
  "show_nat n = (if n < 10 then [digit_char n] else show_nat (n div 10) @ [digit_char (n mod 10)])"
  by pat_completeness auto
termination
  by (relation "measure id") auto

declare show_nat.simps [simp del]

definition show_int :: "int \<Rightarrow> string" where
  "show_int i = (if i < 0 then CHR ''-'' # show_nat (nat (- i)) else show_nat (nat i))"

definition JSON_stringify :: "Range \<Rightarrow> string" where
  "JSON_stringify r = ''['' @ show_int (fst r) @ '','' @ show_int (snd r) @ '']''"

text \<open>
  A JavaScript \<open>Map\<close> keeps its keys in the order of their first insertion; setting a key
  that is present replaces the value where it stands. It is an association list here.
\<close>

fun map_set :: "('k \<times> 'v) list \<Rightarrow> 'k \<Rightarrow> 'v \<Rightarrow> ('k \<times> 'v) list" where
  "map_set [] k v = [(k, v)]"
| "map_set ((k', v') # m) k v = (if k' = k then (k', v) # m else (k', v') # map_set m k v)"

definition new_Map :: "('k \<times> 'v) list \<Rightarrow> ('k \<times> 'v) list" where
  "new_Map entries = fold (\<lambda>(k, v) m. map_set m k v) entries []"

definition map_values :: "('k \<times> 'v) list \<Rightarrow> 'v list" where
  "map_values m = map snd m"

definition removeDuplicates :: "Range list \<Rightarrow> Range list" where
  "removeDuplicates ranges = map_values (new_Map (map (\<lambda>range. (JSON_stringify range, range)) ranges))"

subsection \<open>mergeRanges\<close>

text \<open>One step of the \<open>reduce\<close>: the accumulator \<open>merged\<close> and the next range.\<close>

definition merge_step :: "Range list \<Rightarrow> Range \<Rightarrow> Range list" where
  "merge_step merged r =
     (case r of (start, end) \<Rightarrow>
        if length merged = 0 then [(start, end)]
        else (case merged ! (length merged - 1) of (lastStart, lastEnd) \<Rightarrow>
                if start \<le> lastEnd
                then merged[length merged - 1 := (lastStart, max lastEnd end)]
                else merged @ [(start, end)]))"

definition mergeRanges :: "Range list \<Rightarrow> Range list" where
  "mergeRanges ranges =
     (if length ranges = 0 then [] else fold (\<lambda>r merged. merge_step merged r) ranges [])"

subsection \<open>The range processing pipeline\<close>

definition processRanges :: "Range list \<Rightarrow> Range list" where
  "processRanges ranges =
     fold (\<lambda>fn result. fn result) [normalizeRanges, removeDuplicates, mergeRanges] ranges"

section \<open>Strings\<close>

subsection \<open>Character classes\<close>

text \<open>
  \<open>\s\<close> and the characters \<open>trim\<close> removes: TAB, LF, VT, FF, CR, space and the no-break
  space. \<open>\w\<close> is \<open>[A-Za-z0-9_]\<close>. The dot of a regular expression matches anything but
  a line terminator.
\<close>

definition is_space :: "char \<Rightarrow> bool" where
  "is_space c = (c \<in> set [CHR 0x09, CHR 0x0A, CHR 0x0B, CHR 0x0C, CHR 0x0D, CHR 0x20, CHR 0xA0])"

definition is_word :: "char \<Rightarrow> bool" where
  "is_word c = (let n = (of_char c :: nat) in
      (48 \<le> n \<and> n \<le> 57) \<or> (65 \<le> n \<and> n \<le> 90) \<or> n = 95 \<or> (97 \<le> n \<and> n \<le> 122))"

definition is_punct :: "char \<Rightarrow> bool" where
  "is_punct c = (c \<in> set ''.,!?'')"

definition is_dot :: "char \<Rightarrow> bool" where
  "is_dot c = (c \<noteq> CHR 0x0A \<and> c \<noteq> CHR 0x0D)"

subsection \<open>String methods\<close>

definition trim :: "string \<Rightarrow> string" where
  "trim s = rev (dropWhile is_space (rev (dropWhile is_space s)))"

text \<open>
  \<open>slice\<close> resolves an offset against the length: a negative offset counts from the end,
  and every offset is clamped into the string.
\<close>

definition rel_index :: "nat \<Rightarrow> int \<Rightarrow> nat" where
  "rel_index len i = (if i < 0 then nat (max (int len + i) 0) else nat (min i (int len)))"

definition slice :: "string \<Rightarrow> int \<Rightarrow> int \<Rightarrow> string" where
  "slice s start end =
     (let from = rel_index (length s) start; to = rel_index (length s) end
      in take (to - from) (drop from s))"

definition slice_from :: "string \<Rightarrow> int \<Rightarrow> string" where
  "slice_from s start = drop (rel_index (length s) start) s"

text \<open>
  \<open>indexOf(pat, pos)\<close>: the first offset at or after \<open>pos\<close> (clamped into the string)
  where \<open>pat\<close> starts, or -1.
\<close>

fun occurs_from :: "string \<Rightarrow> string \<Rightarrow> nat \<Rightarrow> int" where
  "occurs_from pat [] k = (if pat = [] then int k else - 1)"
| "occurs_from pat (c # cs) k =
     (if take (length pat) (c # cs) = pat then int k else occurs_from pat cs (Suc k))"

definition indexOf :: "string \<Rightarrow> string \<Rightarrow> int \<Rightarrow> int" where
  "indexOf s pat pos =
     (let start = nat (min (max pos 0) (int (length s))) in occurs_from pat (drop start s) start)"

text \<open>\<open>replace(/\s+/g, " ")\<close>: every maximal run of whitespace becomes one space.\<close>

function collapse_ws :: "string \<Rightarrow> string" where
  "collapse_ws [] = []"
| "collapse_ws (c # cs) =
     (if is_space c then CHR '' '' # collapse_ws (dropWhile is_space cs) else c # collapse_ws cs)"
  by pat_completeness auto
termination
  by (relation "measure length") (auto simp: length_dropWhile_le less_Suc_eq_le)

subsection \<open>escapeHtml\<close>

definition htmlEscapes :: "(char \<times> string) list" where
  "htmlEscapes =
     [(CHR ''&'', ''&amp;''), (CHR ''<'', ''&lt;''), (CHR ''>'', ''&gt;''),
      (CHR 0x22, ''&quot;''), (CHR 0x27, ''&#39;'')]"

text \<open>
  \<open>replace(/[&<>"']/g, (match) => htmlEscapes[match])\<close>: one pass from left to right; a
  character of the class is replaced by the table's entry for it (a key that the table
  lacks would read \<open>undefined\<close>), any other character is copied.
\<close>

fun escapeHtml :: "string \<Rightarrow> string" where
  "escapeHtml [] = []"
| "escapeHtml (c # cs) =
     (if c \<in> set [CHR ''&'', CHR ''<'', CHR ''>'', CHR 0x22, CHR 0x27]
      then (case map_of htmlEscapes c of Some e \<Rightarrow> e | None \<Rightarrow> ''undefined'')
      else [c]) @ escapeHtml cs"

section \<open>Regular expressions of extractTextSegment\<close>

text \<open>
  A greedy quantifier over a character class tries the longest run first and gives
  characters back one at a time. \<open>star_cls P s\<close> lists, in that order, what is left of
  \<open>s\<close> after each way of matching \<open>P*\<close> at its start; \<open>plus_cls\<close> does so for \<open>P+\<close>.
\<close>

fun star_cls :: "(char \<Rightarrow> bool) \<Rightarrow> string \<Rightarrow> string list" where
  "star_cls P [] = [[]]"
| "star_cls P (c # cs) = (if P c then star_cls P cs @ [c # cs] else [c # cs])"

definition plus_cls :: "(char \<Rightarrow> bool) \<Rightarrow> string \<Rightarrow> string list" where
  "plus_cls P s = (case s of [] \<Rightarrow> [] | c # cs \<Rightarrow> if P c then star_cls P cs else [])"

definition word_boundary :: "string \<Rightarrow> nat \<Rightarrow> bool" where
  "word_boundary s i =
     ((0 < i \<and> is_word (s ! (i - 1))) \<noteq> (i < length s \<and> is_word (s ! i)))"

text \<open>
  \<open>/(?:\b\w+[.,!?]*)\W*$/\<close> tried at offset \<open>i\<close>: the first way through the three
  quantifiers that ends at the end of the string; the result is the matched text.
\<close>

definition re_before_at :: "string \<Rightarrow> nat \<Rightarrow> string option" where
  "re_before_at s i =
     (if \<not> word_boundary s i then None
      else let r = drop i s;
               ends = List.bind (plus_cls is_word r) (\<lambda>r1.
                        List.bind (star_cls is_punct r1) (\<lambda>r2.
                          star_cls (\<lambda>c. \<not> is_word c) r2))
           in (case filter (\<lambda>rest. rest = []) ends of
                 [] \<Rightarrow> None
               | rest # _ \<Rightarrow> Some (take (length r - length rest) r)))"

text \<open>\<open>String.prototype.match\<close> without the \<open>g\<close> flag: the match at the first offset that has one.\<close>

fun first_match :: "(nat \<Rightarrow> string option) \<Rightarrow> nat list \<Rightarrow> string option" where
  "first_match f [] = None"
| "first_match f (i # is) = (case f i of Some m \<Rightarrow> Some m | None \<Rightarrow> first_match f is)"

definition re_before :: "string \<Rightarrow> string option" where
  "re_before s = first_match (re_before_at s) [0..<Suc (length s)]"

text \<open>
  \<open>/^\W*([.,!?])|^\W*(\w+)/\<close>: both alternatives are anchored at the start, the first is
  tried first. The result is the pair of the capture groups.
\<close>

definition re_after :: "string \<Rightarrow> (string option \<times> string option) option" where
  "re_after s =
     (case List.bind (star_cls (\<lambda>c. \<not> is_word c) s)
             (\<lambda>r. case r of [] \<Rightarrow> [] | c # cs \<Rightarrow> if is_punct c then [[c]] else []) of
        g # _ \<Rightarrow> Some (Some g, None)
      | [] \<Rightarrow>
         (case List.bind (star_cls (\<lambda>c. \<not> is_word c) s)
                 (\<lambda>r. map (\<lambda>r'. take (length r - length r') r) (plus_cls is_word r)) of
            g # _ \<Rightarrow> Some (None, Some g)
          | [] \<Rightarrow> None))"

text \<open>\<open>/[.,!?]/.test(s)\<close>\<close>

definition re_test_punct :: "string \<Rightarrow> bool" where
  "re_test_punct s = (\<exists>c \<in> set s. is_punct c)"

text \<open>
  \<open>replace(/^\[...\]\s+/, " ")\<close>: the three dots are not escaped in the source, each
  matches any character but a line terminator.
\<close>

fun replace_leading_ellipsis :: "string \<Rightarrow> string" where
  "replace_leading_ellipsis (c0 # c1 # c2 # c3 # c4 # c5 # rest) =
     (if c0 = CHR ''['' \<and> is_dot c1 \<and> is_dot c2 \<and> is_dot c3 \<and> c4 = CHR '']'' \<and> is_space c5
      then '' '' @ dropWhile is_space rest
      else c0 # c1 # c2 # c3 # c4 # c5 # rest)"
| "replace_leading_ellipsis s = s"

section \<open>Segments\<close>

record ExtractedSegment =
  seg_range :: Range
  seg_target :: string
  seg_previous :: "string option"
  seg_next :: "string option"
  seg_context :: string

text \<open>Truthiness of a \<open>string | null\<close>, and \<open>a || b\<close> on such values.\<close>

definition truthy :: "string option \<Rightarrow> bool" where
  "truthy v = (case v of None \<Rightarrow> False | Some s \<Rightarrow> s \<noteq> [])"

definition js_or :: "string option \<Rightarrow> string option \<Rightarrow> string option" where
  "js_or a b = (if truthy a then a else b)"

text \<open>The parts of \<open>extractTextSegment\<close>, one definition for each constant of its body.\<close>

definition segment_previous :: "string \<Rightarrow> int \<Rightarrow> string option" where
  "segment_previous text start =
     (let beforeText = slice text 0 start;
          beforeMatch = re_before beforeText
      in (case beforeMatch of Some m \<Rightarrow> Some (trim m) | None \<Rightarrow> None))"

definition segment_next :: "string \<Rightarrow> int \<Rightarrow> string option" where
  "segment_next text end =
     (let afterText = slice_from text end;
          afterMatch = re_after afterText;
          nextPunctuation = js_or (case afterMatch of Some (g1, g2) \<Rightarrow> g1 | None \<Rightarrow> None) None;
          nextWord = js_or (case afterMatch of Some (g1, g2) \<Rightarrow> g2 | None \<Rightarrow> None) None
      in js_or nextPunctuation nextWord)"

definition hasMoreContent :: "string \<Rightarrow> int \<Rightarrow> string option \<Rightarrow> bool" where
  "hasMoreContent text end nxt =
     (case nxt of
        None \<Rightarrow> False
      | Some n \<Rightarrow>
          if n = [] then False
          else 0 < length (trim (slice_from text (indexOf text n end + int (length n)))))"

text \<open>The context as it stands before the test of \<open>hasMoreContent\<close>.\<close>

definition context_before_ellipsis ::
  "nat \<Rightarrow> string option \<Rightarrow> string \<Rightarrow> string option \<Rightarrow> string" where
  "context_before_ellipsis index prev target nxt =
     (if 0 < index then ''[...] '' else [])
     @ (case prev of None \<Rightarrow> [] | Some p \<Rightarrow> p)
     @ '' <em>'' @ target @ ''</em>''
     @ (case nxt of
          None \<Rightarrow> []
        | Some n \<Rightarrow> if n = [] then [] else if re_test_punct n then n else '' '' @ n)"

definition extractTextSegment :: "string \<Rightarrow> Range \<Rightarrow> nat \<Rightarrow> ExtractedSegment" where
  "extractTextSegment text r index =
     (case r of (start, end) \<Rightarrow>
        let target = trim (slice text start end);
            prev = segment_previous text start;
            nxt = segment_next text end;
            ctx = context_before_ellipsis index prev target nxt;
            ctx' = (if hasMoreContent text end nxt then ctx @ '' [...] '' else ctx)
        in \<lparr> seg_range = (start, end), seg_target = target, seg_previous = prev,
             seg_next = nxt, seg_context = trim (collapse_ws ctx') \<rparr>)"

section \<open>highlightText\<close>

text \<open>The body of the loop: the state is \<open>result\<close> and \<open>lastIndex\<close>.\<close>

definition highlight_step :: "string \<Rightarrow> Range \<Rightarrow> string \<times> int \<Rightarrow> string \<times> int" where
  "highlight_step text r st =
     (case r of (start, end) \<Rightarrow> case st of (result, lastIndex) \<Rightarrow>
        let rangeText = slice text start end
        in if length rangeText = 0 then (result, lastIndex)
           else (result @ slice text lastIndex start @ ''<em>'' @ rangeText @ ''</em>'', end))"

definition highlightText :: "string \<Rightarrow> Range list \<Rightarrow> string" where
  "highlightText text ranges =
     (if text = [] \<or> length ranges = 0 then []
      else (case fold (highlight_step text) ranges ([], 0) of
              (result, lastIndex) \<Rightarrow> result @ slice_from text lastIndex))"

section \<open>excerptHighlighting\<close>

text \<open>
  The callback of the \<open>reduce\<close> at \<open>index\<close>: it appends the context of the segment at
  \<open>index\<close> as it then stands, and rewrites the context of the segment after it, when there
  is one. The state is the array of segments and \<open>output\<close>.
\<close>

definition excerpt_step ::
  "nat \<Rightarrow> ExtractedSegment list \<times> string \<Rightarrow> ExtractedSegment list \<times> string" where
  "excerpt_step index st =
     (case st of (segments, output) \<Rightarrow>
        let segment = segments ! index;
            output' = output @ seg_context segment
        in if index + 1 < length segments
           then (segments[index + 1 :=
                   (segments ! (index + 1))
                     \<lparr>seg_context := replace_leading_ellipsis (seg_context (segments ! (index + 1)))\<rparr>],
                 output')
           else (segments, output'))"

definition extract_segments :: "string \<Rightarrow> Range list \<Rightarrow> ExtractedSegment list" where
  "extract_segments text ranges =
     map (\<lambda>(index, r). extractTextSegment text r index) (enumerate 0 ranges)"

definition excerptHighlighting :: "string \<Rightarrow> Range list \<Rightarrow> string" where
  "excerptHighlighting text ranges =
     (if text = [] \<or> length ranges = 0 then []
      else let segments = extract_segments text ranges
           in trim (snd (fold excerpt_step [0..<length segments] (segments, []))))"

section \<open>highlightTextRanges\<close>

datatype js_error = Error string | TypeError

text \<open>
  The end-of-text rewrite of the facade, \<open>processedRanges[0][1] = escapedText.length\<close>
  under its test. Reading \<open>processedRanges[0]\<close> of an empty array is a \<open>TypeError\<close>.
\<close>

definition fix_first_end :: "string \<Rightarrow> string \<Rightarrow> Range list \<Rightarrow> js_error + Range list" where
  "fix_first_end textToHighlight escapedText processedRanges =
     (if length processedRanges = 0 then Inl TypeError
      else if snd (processedRanges ! 0) = int (length textToHighlight)
           then Inr (processedRanges[0 := (fst (processedRanges ! 0), int (length escapedText))])
           else Inr processedRanges)"

definition highlightTextRanges :: "string \<Rightarrow> Range list \<Rightarrow> bool \<Rightarrow> js_error + string" where
  "highlightTextRanges textToHighlight ranges createExcerpt =
     (if textToHighlight = [] then Inl (Error ''No text provided to highlight'')
      else if length ranges = 0 then Inl (Error ''No ranges provided for highlighting'')
      else let processedRanges = processRanges ranges;
               escapedText = trim (escapeHtml textToHighlight)
           in (case fix_first_end textToHighlight escapedText processedRanges of
                 Inl e \<Rightarrow> Inl e
               | Inr processedRanges' \<Rightarrow>
                   Inr (if createExcerpt then excerptHighlighting escapedText processedRanges'
                        else highlightText escapedText processedRanges')))"

section \<open>Auxiliary notions\<close>

text \<open>The value of a string of decimal digits, to read \<open>show_nat\<close> back.\<close>

definition digits_val :: "string \<Rightarrow> nat" where
  "digits_val s = foldl (\<lambda>a c. 10 * a + (of_char c - 48)) 0 s"

text \<open>Appending an element unless it is there already: what a \<open>Map\<close> keyed by the element does.\<close>

definition keep_first :: "'a \<Rightarrow> 'a list \<Rightarrow> 'a list" where
  "keep_first x acc = (if x \<in> set acc then acc else acc @ [x])"

text \<open>Every range ends before any later one starts.\<close>

definition gapped :: "Range list \<Rightarrow> bool" where
  "gapped rs = sorted_wrt (\<lambda>a b. snd a < fst b) rs"

text \<open>The five characters that are escaped, and the entities that replace them.\<close>

definition special :: "char \<Rightarrow> bool" where
  "special c = (c \<in> set [CHR ''&'', CHR ''<'', CHR ''>'', CHR 0x22, CHR 0x27])"

definition entities :: "string list" where
  "entities = [''&amp;'', ''&lt;'', ''&gt;'', ''&quot;'', ''&#39;'']"

definition entity_of :: "char \<Rightarrow> string" where
  "entity_of c =
     (if c = CHR ''&'' then ''&amp;''
      else if c = CHR ''<'' then ''&lt;''
      else if c = CHR ''>'' then ''&gt;''
      else if c = CHR 0x22 then ''&quot;''
      else if c = CHR 0x27 then ''&#39;''
      else [c])"

fun starts_entity :: "string \<Rightarrow> bool" where
  "starts_entity s = (\<exists>e \<in> set entities. take (length e) s = e)"

fun guarded :: "string \<Rightarrow> bool" where
  "guarded [] = True"
| "guarded (c # cs) = ((if special c then c = CHR ''&'' \<and> starts_entity (c # cs) else True) \<and> guarded cs)"

text \<open>Removing trailing whitespace: the second half of \<open>trim\<close>.\<close>

definition rstrip :: "string \<Rightarrow> string" where
  "rstrip s = rev (dropWhile is_space (rev s))"

text \<open>
  The loop of \<open>highlightText\<close> read from the left: what it appends from \<open>lastIndex\<close> on,
  the rest of the text included.
\<close>

fun highlight_from :: "string \<Rightarrow> int \<Rightarrow> Range list \<Rightarrow> string" where
  "highlight_from text lastIndex [] = slice_from text lastIndex"
| "highlight_from text lastIndex ((start, end) # rs) =
     (if slice text start end = [] then highlight_from text lastIndex rs
      else slice text lastIndex start @ ''<em>'' @ slice text start end @ ''</em>''
           @ highlight_from text end rs)"

text \<open>Deleting every occurrence of \<open><em>\<close> and \<open></em>\<close>, in one pass from the left.\<close>

function strip_markers :: "string \<Rightarrow> string" where
  "strip_markers [] = []"
| "strip_markers (c # cs) =
     (if take 4 (c # cs) = ''<em>'' then strip_markers (drop 3 cs)
      else if take 5 (c # cs) = ''</em>'' then strip_markers (drop 4 cs)
      else c # strip_markers cs)"
  by pat_completeness auto
termination
  by (relation "measure length") auto

text \<open>Two ranges overlap when they share an offset, read as half-open intervals.\<close>

definition overlap :: "Range \<Rightarrow> Range \<Rightarrow> bool" where
  "overlap a b = (max (fst a) (fst b) < min (snd a) (snd b))"

text \<open>
  The first occurrence of \<open>pat\<close> in \<open>s\<close> searching forward from the offset \<open>pos\<close>: it
  starts at \<open>k\<close>, and at no offset from \<open>pos\<close> up to \<open>k\<close>.
\<close>

definition first_occurrence :: "string \<Rightarrow> string \<Rightarrow> int \<Rightarrow> nat \<Rightarrow> bool" where
  "first_occurrence s pat pos k =
     (pos \<le> int k \<and> take (length pat) (drop k s) = pat
      \<and> (\<forall>j \<in> set [0..<k]. pos \<le> int j \<longrightarrow> take (length pat) (drop j s) \<noteq> pat))"

text \<open>
  The excerpt as the specification words it: a leading \<open>[...]\<close> with its space, at the
  very start of the context of a segment that follows another, becomes one space; the
  excerpt is the concatenation of the contexts, trimmed.
\<close>

definition spec_rewrite_leading_marker :: "string \<Rightarrow> string" where
  "spec_rewrite_leading_marker c = (if take 6 c = ''[...] '' then '' '' @ drop 6 c else c)"

fun spec_assemble :: "string list \<Rightarrow> string" where
  "spec_assemble [] = trim []"
| "spec_assemble (c # cs) = trim (c @ concat (map spec_rewrite_leading_marker cs))"

section \<open>The range pipeline: proofs\<close>

subsection \<open>The keys of removeDuplicates determine the range\<close>

lemma of_char_digit_char: "d < 10 \<Longrightarrow> of_char (digit_char d) - 48 = (d::nat)"
  by (simp add: digit_char_def)

lemma digits_val_show_nat: "digits_val (show_nat n) = n"
proof (induction n rule: show_nat.induct)
  case (1 n)
  show ?case
  proof (cases "n < 10")
    case True
    then show ?thesis by (simp add: show_nat.simps[of n] digits_val_def of_char_digit_char)
  next
    case False
    with 1 have "digits_val (show_nat (n div 10)) = n div 10" by simp
    with False show ?thesis
      by (simp add: show_nat.simps[of n] digits_val_def of_char_digit_char)
  qed
qed

lemma show_nat_inj: "show_nat m = show_nat n \<Longrightarrow> m = n"
  by (metis digits_val_show_nat)

lemma digit_char_neq: "d < 10 \<Longrightarrow> digit_char d \<noteq> CHR '','' \<and> digit_char d \<noteq> CHR ''-''"
proof -
  assume "d < 10"
  then have "of_char (digit_char d) = 48 + d" by (simp add: digit_char_def)
  then show ?thesis by auto
qed

lemma show_nat_chars: "c \<in> set (show_nat n) \<Longrightarrow> c \<noteq> CHR '','' \<and> c \<noteq> CHR ''-''"
proof (induction n rule: show_nat.induct)
  case (1 n)
  show ?case
  proof (cases "n < 10")
    case True
    with 1(2) show ?thesis using digit_char_neq[of n] by (simp add: show_nat.simps[of n])
  next
    case False
    with 1 show ?thesis using digit_char_neq[of "n mod 10"]
      by (auto simp add: show_nat.simps[of n])
  qed
qed

lemma show_nat_nonempty: "show_nat n \<noteq> []"
  by (subst show_nat.simps) simp

lemma show_int_inj: "show_int a = show_int b \<Longrightarrow> a = b"
  using show_nat_chars[of "CHR ''-''"] show_nat_nonempty
  apply (auto simp: show_int_def split: if_splits dest!: show_nat_inj)
  apply (metis list.set_intros(1))
  apply (metis list.set_intros(1))
  done

lemma show_int_no_comma: "CHR '','' \<notin> set (show_int a)"
  using show_nat_chars[of "CHR '',''"] by (auto simp: show_int_def)

lemma split_at_comma:
  assumes "a @ CHR '','' # b = c @ CHR '','' # d" "CHR '','' \<notin> set a" "CHR '','' \<notin> set c"
  shows "a = c \<and> b = d"
proof -
  have "takeWhile (\<lambda>x. x \<noteq> CHR '','') (a @ CHR '','' # b) = a"
    using assms(2) by (induction a) auto
  moreover have "takeWhile (\<lambda>x. x \<noteq> CHR '','') (c @ CHR '','' # d) = c"
    using assms(3) by (induction c) auto
  ultimately have "a = c" using assms(1) by simp
  with assms(1) show ?thesis by simp
qed

lemma JSON_stringify_inj: "JSON_stringify r = JSON_stringify q \<Longrightarrow> r = q"
proof -
  assume "JSON_stringify r = JSON_stringify q"
  then have "show_int (fst r) @ CHR '','' # show_int (snd r) = show_int (fst q) @ CHR '','' # show_int (snd q)"
    by (simp add: JSON_stringify_def)
  then have "show_int (fst r) = show_int (fst q) \<and> show_int (snd r) = show_int (snd q)"
    using split_at_comma show_int_no_comma by blast
  then show ?thesis by (auto dest!: show_int_inj simp: prod_eq_iff)
qed

subsection \<open>removeDuplicates keeps the first occurrence of each range\<close>

lemma map_set_keyed:
  assumes "inj f"
  shows "map_set (map (\<lambda>v. (f v, v)) acc) (f x) x = map (\<lambda>v. (f v, v)) (keep_first x acc)"
proof (induction acc)
  case Nil
  show ?case by (simp add: keep_first_def)
next
  case (Cons a acc)
  show ?case
  proof (cases "a = x")
    case True
    then show ?thesis by (simp add: keep_first_def)
  next
    case False
    then have "f a \<noteq> f x" using assms by (auto dest: injD)
    with False Cons show ?thesis by (simp add: keep_first_def)
  qed
qed

lemma fold_map_set_keyed:
  assumes "inj f"
  shows "fold (\<lambda>(k, v) m. map_set m k v) (map (\<lambda>v. (f v, v)) xs) (map (\<lambda>v. (f v, v)) acc)
         = map (\<lambda>v. (f v, v)) (fold keep_first xs acc)"
  by (induction xs arbitrary: acc) (simp_all add: map_set_keyed[OF assms])

lemma removeDuplicates_fold: "removeDuplicates ranges = fold keep_first ranges []"
proof -
  have "inj JSON_stringify" by (auto intro: injI dest: JSON_stringify_inj)
  from fold_map_set_keyed[OF this, of ranges "[]"] show ?thesis
    by (simp add: removeDuplicates_def new_Map_def map_values_def comp_def)
qed

lemma fold_keep_first_distinct_id: "distinct (acc @ xs) \<Longrightarrow> fold keep_first xs acc = acc @ xs"
  by (induction xs arbitrary: acc) (auto simp: keep_first_def)

lemma fold_keep_first_set: "set (fold keep_first xs acc) = set acc \<union> set xs"
  by (induction xs arbitrary: acc) (auto simp: keep_first_def)

lemma removeDuplicates_distinct_id: "distinct xs \<Longrightarrow> removeDuplicates xs = xs"
  using fold_keep_first_distinct_id[of "[]" xs] by (simp add: removeDuplicates_fold)

lemma removeDuplicates_set: "set (removeDuplicates xs) = set xs"
  by (simp add: removeDuplicates_fold fold_keep_first_set)

subsection \<open>Sorting\<close>

lemma set_js_insert: "set (js_insert cmp x xs) = insert x (set xs)"
  by (induction xs) auto

lemma set_js_sort: "set (js_sort cmp xs) = set xs"
  by (induction xs) (auto simp: js_sort_def set_js_insert)

lemma js_insert_sorted_id:
  "\<forall>y\<in>set xs. cmp x y \<le> 0 \<Longrightarrow> js_insert cmp x xs = x # xs"
  by (cases xs) auto

lemma js_sort_sorted_id:
  "sorted_wrt (\<lambda>a b. cmp a b \<le> 0) xs \<Longrightarrow> js_sort cmp xs = xs"
proof (induction xs)
  case Nil
  show ?case by (simp add: js_sort_def)
next
  case (Cons x xs)
  then have "js_sort cmp xs = xs" by simp
  moreover have "js_insert cmp x xs = x # xs" using Cons.prems by (intro js_insert_sorted_id) simp
  ultimately show ?case by (simp add: js_sort_def)
qed

lemma normalizeRanges_ordered: "r \<in> set (normalizeRanges ranges) \<Longrightarrow> fst r \<le> snd r"
  by (auto simp: normalizeRanges_def set_js_sort)

lemma normalizeRanges_nonempty: "ranges \<noteq> [] \<Longrightarrow> normalizeRanges ranges \<noteq> []"
proof -
  assume "ranges \<noteq> []"
  then have "set (normalizeRanges ranges) \<noteq> {}" by (simp add: normalizeRanges_def set_js_sort)
  then show ?thesis by auto
qed

subsection \<open>Merging\<close>

lemma merge_step_inv:
  assumes "gapped acc" "\<forall>a\<in>set acc. fst a \<le> snd a" "fst r \<le> snd r"
  shows "gapped (merge_step acc r) \<and> (\<forall>a\<in>set (merge_step acc r). fst a \<le> snd a)"
proof (cases acc rule: rev_cases)
  case Nil
  then show ?thesis using assms by (cases r) (simp add: merge_step_def gapped_def)
next
  case (snoc ys y)
  obtain s e where r: "r = (s, e)" by (cases r)
  obtain ls le where y: "y = (ls, le)" by (cases y)
  from assms(1) snoc have g: "sorted_wrt (\<lambda>a b. snd a < fst b) ys" "\<forall>a\<in>set ys. snd a < ls"
    by (auto simp: gapped_def sorted_wrt_append y)
  from assms(2) snoc y have o: "\<forall>a\<in>set ys. fst a \<le> snd a" "ls \<le> le" by auto
  show ?thesis
  proof (cases "s \<le> le")
    case True
    then have "merge_step acc r = ys @ [(ls, max le e)]"
      by (simp add: merge_step_def snoc r y)
    then show ?thesis using g o by (auto simp: gapped_def sorted_wrt_append)
  next
    case False
    then have "merge_step acc r = ys @ [(ls, le), (s, e)]"
      by (simp add: merge_step_def snoc r y)
    moreover have "\<forall>a\<in>set ys. snd a < s" using g(2) o(2) False by fastforce
    ultimately show ?thesis using g o False assms(3) r
      by (auto simp: gapped_def sorted_wrt_append)
  qed
qed

lemma fold_merge_step_inv:
  "gapped acc \<Longrightarrow> \<forall>a\<in>set acc. fst a \<le> snd a \<Longrightarrow> \<forall>r\<in>set rs. fst r \<le> snd r \<Longrightarrow>
   gapped (fold (\<lambda>r merged. merge_step merged r) rs acc)
   \<and> (\<forall>a\<in>set (fold (\<lambda>r merged. merge_step merged r) rs acc). fst a \<le> snd a)"
proof (induction rs arbitrary: acc)
  case Nil
  then show ?case by simp
next
  case (Cons r rs)
  from merge_step_inv[OF Cons.prems(1,2), of r] Cons.prems(3)
  have "gapped (merge_step acc r)" "\<forall>a\<in>set (merge_step acc r). fst a \<le> snd a" by auto
  from Cons.IH[OF this] Cons.prems(3) show ?case by simp
qed

lemma mergeRanges_inv:
  assumes "\<forall>r\<in>set rs. fst r \<le> snd r"
  shows "gapped (mergeRanges rs) \<and> (\<forall>a\<in>set (mergeRanges rs). fst a \<le> snd a)"
  using fold_merge_step_inv[of "[]" rs] assms by (simp add: mergeRanges_def gapped_def)

lemma merge_step_nonempty: "merge_step acc r \<noteq> []"
  by (cases r) (auto simp: merge_step_def split: prod.splits)

lemma fold_merge_step_nonempty:
  "acc \<noteq> [] \<or> rs \<noteq> [] \<Longrightarrow> fold (\<lambda>r merged. merge_step merged r) rs acc \<noteq> []"
  by (induction rs arbitrary: acc) (auto simp: merge_step_nonempty)

lemma mergeRanges_nonempty: "rs \<noteq> [] \<Longrightarrow> mergeRanges rs \<noteq> []"
  by (simp add: mergeRanges_def fold_merge_step_nonempty)

lemma fold_merge_step_gapped_id:
  "gapped (acc @ rs) \<Longrightarrow> fold (\<lambda>r merged. merge_step merged r) rs acc = acc @ rs"
proof (induction rs arbitrary: acc)
  case Nil
  show ?case by simp
next
  case (Cons r rs)
  have "merge_step acc r = acc @ [r]"
  proof (cases acc rule: rev_cases)
    case Nil
    then show ?thesis by (cases r) (simp add: merge_step_def)
  next
    case (snoc ys y)
    with Cons.prems have "snd y < fst r" by (auto simp: gapped_def sorted_wrt_append)
    then show ?thesis by (cases r; cases y) (simp add: merge_step_def snoc)
  qed
  moreover have "gapped ((acc @ [r]) @ rs)" using Cons.prems by simp
  ultimately show ?case using Cons.IH[of "acc @ [r]"] by simp
qed

lemma mergeRanges_gapped_id: "gapped rs \<Longrightarrow> mergeRanges rs = rs"
  using fold_merge_step_gapped_id[of "[]" rs] by (simp add: mergeRanges_def)

lemma processRanges_unfold: "processRanges rs = mergeRanges (removeDuplicates (normalizeRanges rs))"
  by (simp add: processRanges_def)

lemma processRanges_inv:
  "gapped (processRanges rs) \<and> (\<forall>a\<in>set (processRanges rs). fst a \<le> snd a)"
  unfolding processRanges_unfold
  by (rule mergeRanges_inv) (auto simp: removeDuplicates_set dest: normalizeRanges_ordered)

lemma gapped_ordered_sorted:
  assumes "gapped rs" "\<forall>a\<in>set rs. fst a \<le> snd a"
  shows "sorted_wrt (\<lambda>a b. fst a < fst b) rs"
proof -
  have "sorted_wrt (\<lambda>a b. snd a < fst b \<and> fst a \<le> snd a) rs"
    using assms by (induction rs) (auto simp: gapped_def)
  then show ?thesis by (rule sorted_wrt_mono_rel[rotated]) auto
qed

lemma gapped_ordered_distinct:
  assumes "gapped rs" "\<forall>a\<in>set rs. fst a \<le> snd a"
  shows "distinct rs"
  using gapped_ordered_sorted[OF assms] by (induction rs) auto

lemma processRanges_fixed:
  assumes "gapped rs" "\<forall>a\<in>set rs. fst a \<le> snd a"
  shows "processRanges rs = rs"
proof -
  have m: "map (\<lambda>(a, b). (min a b, max a b)) rs = rs"
    using assms(2) by (induction rs) (auto simp: min_def max_def)
  have "sorted_wrt (\<lambda>a b. range_cmp a b \<le> 0) rs"
    by (rule sorted_wrt_mono_rel[OF _ gapped_ordered_sorted[OF assms]]) (auto simp: range_cmp_def)
  then have "normalizeRanges rs = rs" by (simp add: normalizeRanges_def m js_sort_sorted_id)
  moreover have "removeDuplicates rs = rs"
    by (rule removeDuplicates_distinct_id[OF gapped_ordered_distinct[OF assms]])
  ultimately show ?thesis by (simp add: processRanges_unfold mergeRanges_gapped_id[OF assms(1)])
qed

subsection \<open>The normal form of processed ranges\<close>

text \<open>
  Claim C1. For every list of integer pairs, the pipeline (order the endpoints, sort,
  deduplicate, merge) returns a list in which every pair has start \<open>\<le>\<close> end, the pairs
  are sorted ascending by start and then by end, no pair occurs twice, and of two
  consecutive pairs the second starts after the end of the first.
\<close>

theorem processRanges_normal_form:
  "(\<forall>r \<in> set (processRanges R). fst r \<le> snd r)
   \<and> sorted_wrt (\<lambda>a b. fst a < fst b \<or> (fst a = fst b \<and> snd a \<le> snd b)) (processRanges R)
   \<and> distinct (processRanges R)
   \<and> (\<forall>i. Suc i < length (processRanges R) \<longrightarrow>
         snd (processRanges R ! i) < fst (processRanges R ! Suc i))"
proof -
  let ?out = "processRanges R"
  have g: "gapped ?out" and o: "\<forall>a\<in>set ?out. fst a \<le> snd a"
    using processRanges_inv[of R] by auto
  have "sorted_wrt (\<lambda>a b. fst a < fst b \<or> (fst a = fst b \<and> snd a \<le> snd b)) ?out"
    by (rule sorted_wrt_mono_rel[OF _ gapped_ordered_sorted[OF g o]]) auto
  moreover have "\<forall>i. Suc i < length ?out \<longrightarrow> snd (?out ! i) < fst (?out ! Suc i)"
    using g by (auto simp: gapped_def sorted_wrt_iff_nth_less)
  ultimately show ?thesis using o gapped_ordered_distinct[OF g o] by blast
qed

theorem processRanges_normal_form_witness:
  "processRanges [(10, 8), (3, 5), (5, 3), (6, 2)] = [(2, 6), (8, 10)]
   \<and> distinct (processRanges [(10, 8), (3, 5), (5, 3), (6, 2)])
   \<and> snd (processRanges [(10, 8), (3, 5), (5, 3), (6, 2)] ! 0)
       < fst (processRanges [(10, 8), (3, 5), (5, 3), (6, 2)] ! Suc 0)"
proof -
  have e: "processRanges [(10, 8), (3, 5), (5, 3), (6, 2)] = [(2, 6), (8, 10)]"
    by code_simp
  have "distinct (processRanges [(10, 8), (3, 5), (5, 3), (6, 2)])"
    using processRanges_normal_form[of "[(10, 8), (3, 5), (5, 3), (6, 2)]"] by blast
  then show ?thesis using e by simp
qed

subsection \<open>Idempotence\<close>

text \<open>
  Claim C9. The pipeline is idempotent: applied to its own output it returns that output,
  for every list of ranges.
\<close>

theorem processRanges_idempotent: "processRanges (processRanges R) = processRanges R"
  using processRanges_inv[of R] by (intro processRanges_fixed) auto

section \<open>escapeHtml: proofs\<close>

lemma escapeHtml_Cons: "escapeHtml (c # cs) = entity_of c @ escapeHtml cs"
  by (simp add: entity_of_def htmlEscapes_def)

lemma escapeHtml_concat: "escapeHtml s = concat (map entity_of s)"
  by (induction s) (simp_all add: escapeHtml_Cons del: escapeHtml.simps(2))

lemma escapeHtml_append: "escapeHtml (a @ b) = escapeHtml a @ escapeHtml b"
  by (simp add: escapeHtml_concat)

lemma guarded_entity_of: "guarded t \<Longrightarrow> guarded (entity_of c @ t)"
  by (simp add: entity_of_def special_def entities_def)

lemma guarded_escapeHtml: "guarded (escapeHtml s)"
  by (induction s) (simp_all add: escapeHtml_Cons guarded_entity_of del: escapeHtml.simps(2))

lemma guarded_nth:
  "guarded out \<Longrightarrow> i < length out \<Longrightarrow> special (out ! i) \<Longrightarrow>
   out ! i = CHR ''&'' \<and> (\<exists>e \<in> set entities. take (length e) (drop i out) = e)"
proof (induction out arbitrary: i)
  case Nil
  then show ?case by simp
next
  case (Cons c cs)
  show ?case
  proof (cases i)
    case 0
    with Cons.prems show ?thesis by auto
  next
    case (Suc j)
    with Cons.prems Cons.IH[of j] show ?thesis by simp
  qed
qed

lemma length_escapeHtml: "length s \<le> length (escapeHtml s)"
  by (induction s) (simp_all add: escapeHtml_Cons entity_of_def del: escapeHtml.simps(2))

text \<open>
  Claim C2. For every string, \<open>escapeHtml\<close> replaces every occurrence of the five
  characters \<open>&\<close>, \<open><\<close>, \<open>>\<close>, the double quote and the single quote by its entity
  and alters no other character; so every occurrence of one of the five characters in
  the result lies within an occurrence of one of the five entities.
\<close>

theorem escapeHtml_entities:
  "escapeHtml s =
     concat (map (\<lambda>c. if c = CHR ''&'' then ''&amp;''
                      else if c = CHR ''<'' then ''&lt;''
                      else if c = CHR ''>'' then ''&gt;''
                      else if c = CHR 0x22 then ''&quot;''
                      else if c = CHR 0x27 then ''&#39;''
                      else [c]) s)
   \<and> (\<forall>i < length (escapeHtml s).
         escapeHtml s ! i \<in> set [CHR ''&'', CHR ''<'', CHR ''>'', CHR 0x22, CHR 0x27] \<longrightarrow>
         (\<exists>e \<in> set [''&amp;'', ''&lt;'', ''&gt;'', ''&quot;'', ''&#39;'']. \<exists>j \<le> i.
            i < j + length e \<and> take (length e) (drop j (escapeHtml s)) = e))"
proof -
  have "escapeHtml s = concat (map entity_of s)" by (rule escapeHtml_concat)
  moreover have "\<exists>e \<in> set entities. \<exists>j \<le> i. i < j + length e \<and> take (length e) (drop j (escapeHtml s)) = e"
    if "i < length (escapeHtml s)" "special (escapeHtml s ! i)" for i
  proof -
    from guarded_nth[OF guarded_escapeHtml that]
    obtain e where e: "e \<in> set entities" "take (length e) (drop i (escapeHtml s)) = e" by blast
    then have "0 < length e" by (auto simp: entities_def)
    with e show ?thesis by (intro bexI[of _ e] exI[of _ i]) auto
  qed
  ultimately show ?thesis unfolding entity_of_def[abs_def] special_def entities_def by blast
qed

theorem escapeHtml_entities_witness:
  "escapeHtml ''<b>'' = ''&lt;b&gt;''
   \<and> (\<exists>e \<in> set [''&amp;'', ''&lt;'', ''&gt;'', ''&quot;'', ''&#39;'']. \<exists>j \<le> 0.
          0 < j + length e \<and> take (length e) (drop j (escapeHtml ''<b>'')) = e)"
proof -
  have e: "escapeHtml ''<b>'' = ''&lt;b&gt;''" by code_simp
  have "0 < length (escapeHtml ''<b>'')"
    and "escapeHtml ''<b>'' ! 0 \<in> set [CHR ''&'', CHR ''<'', CHR ''>'', CHR 0x22, CHR 0x27]"
    unfolding e by simp_all
  with escapeHtml_entities[of "''<b>''"] e show ?thesis by blast
qed

section \<open>Strings: proofs\<close>

lemma rel_index_le: "rel_index n i \<le> n"
  by (auto simp: rel_index_def)

lemma rel_index_0: "rel_index n 0 = 0"
  by (simp add: rel_index_def)

lemma length_slice: "length (slice s a b) = rel_index (length s) b - rel_index (length s) a"
  using rel_index_le[of "length s" b] by (simp add: slice_def Let_def)

lemma length_slice_from: "length (slice_from s a) = length s - rel_index (length s) a"
  by (simp add: slice_from_def)

lemma slice_inside:
  "0 \<le> a \<Longrightarrow> a \<le> b \<Longrightarrow> b \<le> int (length s) \<Longrightarrow>
   slice s a b = take (nat b - nat a) (drop (nat a) s)"
  by (simp add: slice_def rel_index_def Let_def min_def)

lemma slice_from_inside:
  "0 \<le> a \<Longrightarrow> a \<le> int (length s) \<Longrightarrow> slice_from s a = drop (nat a) s"
  by (simp add: slice_from_def rel_index_def min_def)

lemma take_between: "k \<le> j \<Longrightarrow> take (j - k) (drop k xs) @ drop j xs = drop k xs"
proof -
  assume "k \<le> j"
  then have "drop j xs = drop (j - k) (drop k xs)" by simp
  then show ?thesis by (simp only: append_take_drop_id)
qed

lemma trim_rstrip: "trim s = rstrip (dropWhile is_space s)"
  by (simp add: trim_def rstrip_def)

lemma rstrip_snoc: "rstrip (xs @ [x]) = (if is_space x then rstrip xs else xs @ [x])"
  by (simp add: rstrip_def)

lemma rstrip_append_nonspace: "\<not> is_space x \<Longrightarrow> rstrip (a @ x # b) = a @ x # rstrip b"
  by (simp add: rstrip_def dropWhile_append)

lemma length_rstrip: "length (rstrip s) \<le> length s"
  using length_dropWhile_le[of is_space "rev s"] by (simp add: rstrip_def)

lemma entity_of_space: "is_space c \<Longrightarrow> entity_of c = [c]"
  by (auto simp: entity_of_def is_space_def)

lemma entity_of_nonspace:
  "\<not> is_space c \<Longrightarrow> \<exists>h m l. entity_of c = h # m \<and> \<not> is_space h \<and> entity_of c = (butlast (entity_of c)) @ [l] \<and> \<not> is_space l"
  by (auto simp: entity_of_def is_space_def)

lemma dropWhile_escapeHtml:
  "dropWhile is_space (escapeHtml s) = escapeHtml (dropWhile is_space s)"
proof (induction s)
  case Nil
  show ?case by simp
next
  case (Cons c cs)
  show ?case
  proof (cases "is_space c")
    case True
    then show ?thesis using Cons by (simp add: escapeHtml_Cons entity_of_space del: escapeHtml.simps(2))
  next
    case False
    from entity_of_nonspace[OF False] obtain h m where "entity_of c = h # m" "\<not> is_space h" by blast
    with False show ?thesis by (simp add: escapeHtml_Cons del: escapeHtml.simps(2))
  qed
qed

lemma rstrip_escapeHtml: "rstrip (escapeHtml s) = escapeHtml (rstrip s)"
proof (induction s rule: rev_induct)
  case Nil
  show ?case by (simp add: rstrip_def)
next
  case (snoc x xs)
  show ?case
  proof (cases "is_space x")
    case True
    have "rstrip (escapeHtml (xs @ [x])) = rstrip (escapeHtml xs @ [x])"
      by (simp add: escapeHtml_append escapeHtml_Cons entity_of_space[OF True] del: escapeHtml.simps(2))
    also have "\<dots> = rstrip (escapeHtml xs)" using True by (simp add: rstrip_snoc)
    finally show ?thesis using snoc True by (simp add: rstrip_snoc)
  next
    case False
    from entity_of_nonspace[OF False] obtain l
      where l: "entity_of x = butlast (entity_of x) @ [l]" "\<not> is_space l" by blast
    have "escapeHtml (xs @ [x]) = (escapeHtml xs @ butlast (entity_of x)) @ [l]"
      using l(1) by (simp add: escapeHtml_append escapeHtml_Cons del: escapeHtml.simps(2))
    then have "rstrip (escapeHtml (xs @ [x])) = escapeHtml (xs @ [x])"
      using l(2) rstrip_snoc[of "escapeHtml xs @ butlast (entity_of x)" l] by simp
    then show ?thesis using False by (simp add: rstrip_snoc)
  qed
qed

lemma trim_escapeHtml: "trim (escapeHtml s) = escapeHtml (trim s)"
  by (simp add: trim_rstrip dropWhile_escapeHtml rstrip_escapeHtml)

section \<open>highlightText: proofs\<close>

lemma fold_highlight_step:
  "(case fold (highlight_step text) ranges (result, lastIndex) of
      (res, l) \<Rightarrow> res @ slice_from text l) = result @ highlight_from text lastIndex ranges"
proof (induction ranges arbitrary: result lastIndex)
  case Nil
  show ?case by simp
next
  case (Cons r rs)
  obtain s e where r: "r = (s, e)" by (cases r)
  show ?case
  proof (cases "slice text s e = []")
    case True
    then show ?thesis using Cons.IH[of result lastIndex] by (simp add: r highlight_step_def)
  next
    case False
    then show ?thesis
      using Cons.IH[of "result @ slice text lastIndex s @ ''<em>'' @ slice text s e @ ''</em>''" e]
      by (simp add: r highlight_step_def)
  qed
qed

lemma highlightText_from:
  "text \<noteq> [] \<Longrightarrow> ranges \<noteq> [] \<Longrightarrow> highlightText text ranges = highlight_from text 0 ranges"
  using fold_highlight_step[of "text" ranges "[]" 0] by (simp add: highlightText_def)

lemma length_highlight_from:
  "length text - rel_index (length text) k \<le> length (highlight_from text k ranges)"
proof (induction ranges arbitrary: k)
  case Nil
  show ?case by (simp add: length_slice_from)
next
  case (Cons r rs)
  obtain s e where r: "r = (s, e)" by (cases r)
  show ?case
  proof (cases "slice text s e = []")
    case True
    then show ?thesis using Cons.IH[of k] by (simp add: r)
  next
    case False
    then show ?thesis using Cons.IH[of e] rel_index_le[of "length text" e]
      by (simp add: r length_slice)
  qed
qed

lemma length_highlightText:
  "text \<noteq> [] \<Longrightarrow> ranges \<noteq> [] \<Longrightarrow> length text \<le> length (highlightText text ranges)"
  using length_highlight_from[of "text" 0 ranges] by (simp add: highlightText_from rel_index_0)

lemma length_highlightText_ge:
  "ranges \<noteq> [] \<Longrightarrow> length text \<le> length (highlightText text ranges)"
  using length_highlightText[of "text" ranges] by (cases "text = []") auto

lemma strip_markers_plain: "c \<noteq> CHR ''<'' \<Longrightarrow> strip_markers (c # cs) = c # strip_markers cs"
  by auto

lemma strip_markers_append_plain:
  "CHR ''<'' \<notin> set a \<Longrightarrow> strip_markers (a @ b) = a @ strip_markers b"
proof (induction a)
  case Nil
  show ?case by simp
next
  case (Cons c a)
  then have "c \<noteq> CHR ''<''" and "strip_markers (a @ b) = a @ strip_markers b" by auto
  then show ?case using strip_markers_plain[of c "a @ b"] by simp
qed

lemma strip_markers_open: "strip_markers (''<em>'' @ b) = strip_markers b"
  by simp

lemma strip_markers_close: "strip_markers (''</em>'' @ b) = strip_markers b"
  by simp

lemma strip_highlight_from:
  assumes "CHR ''<'' \<notin> set text"
  shows "0 \<le> k \<Longrightarrow> k \<le> int (length text) \<Longrightarrow>
    \<forall>r\<in>set rs. 0 \<le> fst r \<and> fst r \<le> snd r \<and> snd r \<le> int (length text) \<Longrightarrow>
    sorted_wrt (\<lambda>a b. fst a \<le> fst b \<and> \<not> overlap a b) rs \<Longrightarrow>
    \<forall>r\<in>set rs. fst r < snd r \<longrightarrow> k \<le> fst r \<Longrightarrow>
    strip_markers (highlight_from text k rs) = drop (nat k) text"
proof (induction rs arbitrary: k)
  case Nil
  have "CHR ''<'' \<notin> set (drop (nat k) text)" using assms by (auto dest: in_set_dropD)
  then have "strip_markers (drop (nat k) text @ []) = drop (nat k) text @ strip_markers []"
    by (rule strip_markers_append_plain)
  then show ?case using Nil by (simp add: slice_from_inside)
next
  case (Cons r rs)
  obtain s e where r: "r = (s, e)" by (cases r)
  from Cons.prems(3) r have b: "0 \<le> s" "s \<le> e" "e \<le> int (length text)" by auto
  have sl: "slice text s e = take (nat e - nat s) (drop (nat s) text)"
    using b by (rule slice_inside)
  show ?case
  proof (cases "slice text s e = []")
    case True
    have "s = e"
    proof (rule ccontr)
      assume "s \<noteq> e"
      with b have "0 < nat e - nat s" "nat s < length text" by linarith+
      then have "0 < length (take (nat e - nat s) (drop (nat s) text))"
        unfolding length_take length_drop by linarith
      then have "take (nat e - nat s) (drop (nat s) text) \<noteq> []" by blast
      with True sl show False by simp
    qed
    with Cons.prems r have "strip_markers (highlight_from text k rs) = drop (nat k) text"
      by (intro Cons.IH) auto
    with True show ?thesis by (simp add: r)
  next
    case False
    have lt: "s < e"
    proof (rule ccontr)
      assume "\<not> s < e"
      with b have "s = e" by simp
      then have "slice text s e = []" unfolding sl by simp
      with False show False by simp
    qed
    with Cons.prems(5) r have ks: "k \<le> s" by auto
    have later: "\<forall>q\<in>set rs. fst q < snd q \<longrightarrow> e \<le> fst q"
    proof (intro ballI impI)
      fix q assume q: "q \<in> set rs" "fst q < snd q"
      with Cons.prems(4) r have "s \<le> fst q" "\<not> overlap (s, e) q" by auto
      with q(2) lt show "e \<le> fst q" by (auto simp: overlap_def max_def min_def split: if_splits)
    qed
    have ih: "strip_markers (highlight_from text e rs) = drop (nat e) text"
      using Cons.prems b later by (intro Cons.IH) auto
    have pre: "slice text k s = take (nat s - nat k) (drop (nat k) text)"
      using Cons.prems(1) ks b by (intro slice_inside) auto
    have p1: "CHR ''<'' \<notin> set (slice text k s)"
      unfolding pre using assms by (auto dest: in_set_takeD in_set_dropD)
    have p2: "CHR ''<'' \<notin> set (slice text s e)"
      unfolding sl using assms by (auto dest: in_set_takeD in_set_dropD)
    have "strip_markers (highlight_from text k (r # rs))
          = strip_markers (slice text k s @ ''<em>'' @ slice text s e @ ''</em>'' @ highlight_from text e rs)"
      using False by (simp add: r)
    also have "\<dots> = slice text k s @ strip_markers (''<em>'' @ slice text s e @ ''</em>'' @ highlight_from text e rs)"
      by (rule strip_markers_append_plain[OF p1])
    also have "\<dots> = slice text k s @ strip_markers (slice text s e @ ''</em>'' @ highlight_from text e rs)"
      by (simp only: strip_markers_open)
    also have "\<dots> = slice text k s @ slice text s e @ strip_markers (''</em>'' @ highlight_from text e rs)"
      by (simp only: strip_markers_append_plain[OF p2])
    also have "\<dots> = slice text k s @ slice text s e @ drop (nat e) text"
      by (simp only: strip_markers_close ih)
    also have "\<dots> = slice text k s @ drop (nat s) text"
      unfolding sl using take_between[of "nat s" "nat e" "text"] b by simp
    also have "\<dots> = drop (nat k) text"
      unfolding pre using take_between[of "nat k" "nat s" "text"] ks Cons.prems(1) by simp
    finally show ?thesis .
  qed
qed

text \<open>
  Claim C10, amended. For every text without \<open><\<close> and \<open>>\<close> and every non-empty list of
  ranges that is sorted ascending, has start \<open>\<le>\<close> end in every range, no two ranges
  overlapping, and all offsets within the text, deleting every occurrence of \<open><em>\<close>
  and \<open></em>\<close> from the result of \<open>highlightText\<close> gives the text back.
\<close>

theorem strip_markers_highlightText:
  assumes "CHR ''<'' \<notin> set text" "CHR ''>'' \<notin> set text" "ranges \<noteq> []"
    and "\<forall>r\<in>set ranges. 0 \<le> fst r \<and> fst r \<le> snd r \<and> snd r \<le> int (length text)"
    and "sorted_wrt (\<lambda>a b. fst a \<le> fst b \<and> \<not> overlap a b) ranges"
  shows "strip_markers (highlightText text ranges) = text"
proof (cases "text = []")
  case True
  then show ?thesis by (simp add: highlightText_def)
next
  case False
  have "strip_markers (highlight_from text 0 ranges) = drop (nat 0) text"
    using assms(4,5) by (intro strip_highlight_from[OF assms(1)]) auto
  with False assms(3) show ?thesis by (simp add: highlightText_from)
qed

theorem strip_markers_highlightText_witness:
  "strip_markers (highlightText ''abc def'' [(0, 3), (3, 3), (3, 4), (5, 7)]) = ''abc def''
   \<and> highlightText ''abc def'' [(0, 3), (3, 3), (3, 4), (5, 7)] = ''<em>abc</em><em> </em>d<em>ef</em>''"
proof -
  have "strip_markers (highlightText ''abc def'' [(0, 3), (3, 3), (3, 4), (5, 7)]) = ''abc def''"
    by (rule strip_markers_highlightText) (simp_all add: overlap_def)
  moreover have "highlightText ''abc def'' [(0, 3), (3, 3), (3, 4), (5, 7)] = ''<em>abc</em><em> </em>d<em>ef</em>''"
    by code_simp
  ultimately show ?thesis by simp
qed

text \<open>
  As the claim is stated the list of ranges may be empty, and then \<open>highlightText\<close>
  returns the empty string, whatever the text.
\<close>

theorem strip_markers_highlightText_counterexample:
  "highlightText ''a'' [] = [] \<and> strip_markers (highlightText ''a'' []) \<noteq> ''a''"
  by (simp add: highlightText_def)

section \<open>highlightTextRanges: proofs\<close>

lemma processRanges_nonempty: "ranges \<noteq> [] \<Longrightarrow> processRanges ranges \<noteq> []"
proof -
  assume "ranges \<noteq> []"
  then have "normalizeRanges ranges \<noteq> []" by (rule normalizeRanges_nonempty)
  then have "set (removeDuplicates (normalizeRanges ranges)) \<noteq> {}"
    by (simp add: removeDuplicates_set)
  then have "removeDuplicates (normalizeRanges ranges) \<noteq> []" by auto
  then show ?thesis by (simp add: processRanges_unfold mergeRanges_nonempty)
qed

lemma fix_first_end_Inr:
  "prs \<noteq> [] \<Longrightarrow> \<exists>fixed. fix_first_end text escaped prs = Inr fixed"
  by (simp add: fix_first_end_def)

lemma highlightTextRanges_Inr:
  assumes "text \<noteq> []" "ranges \<noteq> []"
  shows "\<exists>fixed. fixed \<noteq> []
           \<and> fix_first_end text (trim (escapeHtml text)) (processRanges ranges) = Inr fixed
           \<and> highlightTextRanges text ranges excerpt =
               Inr (if excerpt then excerptHighlighting (trim (escapeHtml text)) fixed
                    else highlightText (trim (escapeHtml text)) fixed)"
proof -
  have ne: "processRanges ranges \<noteq> []" by (rule processRanges_nonempty[OF assms(2)])
  then obtain fixed where
    f: "fix_first_end text (trim (escapeHtml text)) (processRanges ranges) = Inr fixed"
    using fix_first_end_Inr by blast
  with ne have "fixed \<noteq> []" by (auto simp: fix_first_end_def split: if_splits)
  with f assms show ?thesis by (simp add: highlightTextRanges_def Let_def)
qed

text \<open>
  Claim C3. \<open>highlightTextRanges\<close> raises when and only when the text is empty or the
  list of ranges is empty: the error for the text whatever the ranges are, the error for
  the ranges whenever the text is not empty. For every non-empty text and every non-empty
  list of ranges, whatever the ranges are, it returns a string.
\<close>

theorem highlightTextRanges_raises:
  "(text = [] \<longrightarrow>
      highlightTextRanges text ranges excerpt = Inl (Error ''No text provided to highlight''))
   \<and> (text \<noteq> [] \<and> ranges = [] \<longrightarrow>
      highlightTextRanges text ranges excerpt = Inl (Error ''No ranges provided for highlighting''))
   \<and> (text \<noteq> [] \<and> ranges \<noteq> [] \<longrightarrow> (\<exists>out. highlightTextRanges text ranges excerpt = Inr out))
   \<and> ((\<exists>e. highlightTextRanges text ranges excerpt = Inl e) \<longleftrightarrow> text = [] \<or> ranges = [])"
proof -
  have ok: "\<exists>out. highlightTextRanges text ranges excerpt = Inr out"
    if "text \<noteq> []" "ranges \<noteq> []"
  proof -
    from fix_first_end_Inr[OF processRanges_nonempty[OF that(2)]]
    obtain fixed where "fix_first_end text (trim (escapeHtml text)) (processRanges ranges) = Inr fixed"
      by blast
    with that show ?thesis by (simp add: highlightTextRanges_def Let_def)
  qed
  have e1: "highlightTextRanges text ranges excerpt = Inl (Error ''No text provided to highlight'')"
    if "text = []"
    using that by (simp add: highlightTextRanges_def)
  have e2: "highlightTextRanges text ranges excerpt = Inl (Error ''No ranges provided for highlighting'')"
    if "text \<noteq> []" "ranges = []"
    using that by (simp add: highlightTextRanges_def)
  show ?thesis using ok e1 e2 by (cases "text = []"; cases "ranges = []") auto
qed

theorem highlightTextRanges_raises_witness:
  "highlightTextRanges '''' [(0, 4)] False = Inl (Error ''No text provided to highlight'')
   \<and> highlightTextRanges ''Text'' [] False = Inl (Error ''No ranges provided for highlighting'')
   \<and> (\<exists>out. highlightTextRanges ''abc def ghi'' [(10, 9), (4, 4), (4, 4), (- 5, 100)] True = Inr out)"
  using highlightTextRanges_raises[of "''''" "[(0, 4)]" False]
    highlightTextRanges_raises[of "''Text''" "[]" False]
    highlightTextRanges_raises[of "''abc def ghi''" "[(10, 9), (4, 4), (4, 4), (- 5, 100)]" True]
  by simp

text \<open>
  Claim C4. The excerpt of \<open>Hello world! This is a sample text for testing purposes.\<close>
  for the ranges \<open>[6,11]\<close> and \<open>[35,38]\<close> is
  \<open>Hello <em>world</em>! [...] text <em>for</em> testing [...]\<close>.
\<close>

theorem excerpt_scenario:
  "highlightTextRanges ''Hello world! This is a sample text for testing purposes.''
     [(6, 11), (35, 38)] True
   = Inr ''Hello <em>world</em>! [...] text <em>for</em> testing [...]''"
  by code_simp

text \<open>
  Claim C5. After the pipeline, when the end of the first processed range is the length
  of the text as given, that end becomes the length of \<open>escapedText\<close> (the escaped text,
  which the facade has trimmed); the start of the first range and all the other ranges
  stay as they are, and the highlighter or the excerpt runs on the result.
\<close>

theorem fix_first_end_only:
  assumes "text \<noteq> []" "ranges \<noteq> []"
  shows "\<exists>fixed.
           fix_first_end text (trim (escapeHtml text)) (processRanges ranges) = Inr fixed
         \<and> length fixed = length (processRanges ranges)
         \<and> fst (fixed ! 0) = fst (processRanges ranges ! 0)
         \<and> snd (fixed ! 0) =
             (if snd (processRanges ranges ! 0) = int (length text)
              then int (length (trim (escapeHtml text)))
              else snd (processRanges ranges ! 0))
         \<and> (\<forall>i. 0 < i \<and> i < length fixed \<longrightarrow> fixed ! i = processRanges ranges ! i)
         \<and> highlightTextRanges text ranges excerpt =
             Inr (if excerpt then excerptHighlighting (trim (escapeHtml text)) fixed
                  else highlightText (trim (escapeHtml text)) fixed)"
proof -
  let ?prs = "processRanges ranges"
  let ?esc = "trim (escapeHtml text)"
  have ne: "?prs \<noteq> []" by (rule processRanges_nonempty[OF assms(2)])
  show ?thesis
  proof (cases "snd (?prs ! 0) = int (length text)")
    case True
    let ?fixed = "?prs[0 := (fst (?prs ! 0), int (length ?esc))]"
    have f: "fix_first_end text ?esc ?prs = Inr ?fixed"
      using ne True by (simp add: fix_first_end_def)
    have "highlightTextRanges text ranges excerpt =
             Inr (if excerpt then excerptHighlighting ?esc ?fixed else highlightText ?esc ?fixed)"
      using assms f by (simp add: highlightTextRanges_def Let_def)
    with f ne True show ?thesis by (intro exI[of _ ?fixed]) auto
  next
    case False
    have f: "fix_first_end text ?esc ?prs = Inr ?prs"
      using ne False by (simp add: fix_first_end_def)
    have "highlightTextRanges text ranges excerpt =
             Inr (if excerpt then excerptHighlighting ?esc ?prs else highlightText ?esc ?prs)"
      using assms f by (simp add: highlightTextRanges_def Let_def)
    with f ne False show ?thesis by (intro exI[of _ ?prs]) auto
  qed
qed

theorem fix_first_end_only_witness:
  "\<exists>fixed. fix_first_end ''<b>'' (trim (escapeHtml ''<b>'')) (processRanges [(5, 7), (0, 3)]) = Inr fixed
      \<and> fixed = [(0, 9), (5, 7)]
      \<and> highlightTextRanges ''<b>'' [(5, 7), (0, 3)] False
          = Inr (highlightText (trim (escapeHtml ''<b>'')) fixed)"
proof -
  have e: "fix_first_end ''<b>'' (trim (escapeHtml ''<b>'')) (processRanges [(5, 7), (0, 3)])
           = Inr [(0, 9), (5, 7)]"
    by code_simp
  have "''<b>'' \<noteq> []" and "[(5, 7), (0, 3)] \<noteq> ([] :: Range list)" by simp_all
  from fix_first_end_only[OF this, of False] show ?thesis unfolding e by auto
qed

text \<open>
  Claim C6, amended. For every non-empty text and non-empty list of ranges, the result
  of \<open>highlightTextRanges\<close> without excerpt is at least as long as the escaped and trimmed
  text, hence at least as long as the text without its leading and trailing whitespace.
\<close>

theorem highlightTextRanges_length:
  assumes "text \<noteq> []" "ranges \<noteq> []"
  shows "\<exists>out. highlightTextRanges text ranges False = Inr out
           \<and> length (trim (escapeHtml text)) \<le> length out
           \<and> length (trim text) \<le> length out"
proof -
  from highlightTextRanges_Inr[OF assms, of False] obtain fixed where
    f: "fixed \<noteq> []"
       "highlightTextRanges text ranges False = Inr (highlightText (trim (escapeHtml text)) fixed)"
    by auto
  from f(1) have 1: "length (trim (escapeHtml text)) \<le> length (highlightText (trim (escapeHtml text)) fixed)"
    by (rule length_highlightText_ge)
  have "length (trim text) \<le> length (escapeHtml (trim text))" by (rule length_escapeHtml)
  then have "length (trim text) \<le> length (trim (escapeHtml text))" by (simp add: trim_escapeHtml)
  with 1 f(2) show ?thesis by auto
qed

theorem highlightTextRanges_length_witness:
  "\<exists>out. highlightTextRanges ''  a<b'' [(2, 3)] False = Inr out
         \<and> length (trim (escapeHtml ''  a<b'')) \<le> length out
         \<and> length (trim ''  a<b'') \<le> length out"
proof -
  have "''  a<b'' \<noteq> []" and "[(2, 3)] \<noteq> ([] :: Range list)" by simp_all
  from highlightTextRanges_length[OF this] show ?thesis .
qed

text \<open>
  As the claim is stated the length of the text as given is the bound; leading
  whitespace is lost in the result.
\<close>

theorem highlightTextRanges_shorter_counterexample:
  "highlightTextRanges ''  ab'' [(0, 0)] False = Inr ''ab'' \<and> length ''ab'' < length ''  ab''"
  by code_simp

section \<open>extractTextSegment: proofs\<close>

lemma trim_head: "trim s = [] \<or> \<not> is_space (hd (trim s))"
proof (cases "dropWhile is_space s")
  case Nil
  have "trim s = rev (dropWhile is_space (rev []))" unfolding trim_def Nil ..
  then show ?thesis by simp
next
  case (Cons h t)
  then have "\<not> is_space h" using hd_dropWhile[of is_space s] by auto
  then have "rstrip ([] @ h # t) = [] @ h # rstrip t" by (rule rstrip_append_nonspace)
  with Cons show ?thesis using \<open>\<not> is_space h\<close> by (simp add: trim_rstrip)
qed

lemma trim_nonempty: "trim s \<noteq> [] \<longleftrightarrow> (\<exists>c\<in>set s. \<not> is_space c)"
proof (cases "dropWhile is_space s")
  case Nil
  have "trim s = rev (dropWhile is_space (rev []))" unfolding trim_def Nil ..
  moreover from Nil have "\<forall>c\<in>set s. is_space c" by simp
  ultimately show ?thesis by simp
next
  case (Cons h t)
  then have h: "\<not> is_space h" using hd_dropWhile[of is_space s] by auto
  then have "rstrip ([] @ h # t) = [] @ h # rstrip t" by (rule rstrip_append_nonspace)
  then have "trim s \<noteq> []" using Cons by (simp add: trim_rstrip)
  moreover have "h \<in> set s" using Cons set_dropWhileD[of h is_space s] by simp
  ultimately show ?thesis using h by blast
qed

lemma star_cls_suffix: "r \<in> set (star_cls P s) \<Longrightarrow> \<exists>a. s = a @ r"
proof (induction s)
  case Nil
  then show ?case by simp
next
  case (Cons c cs)
  show ?case
  proof (cases "r = c # cs")
    case True
    then show ?thesis by simp
  next
    case False
    with Cons.prems have "r \<in> set (star_cls P cs)" by (auto split: if_splits)
    with Cons.IH obtain a where "cs = a @ r" by blast
    then have "c # cs = (c # a) @ r" by simp
    then show ?thesis by blast
  qed
qed

lemma plus_cls_suffix: "r' \<in> set (plus_cls P r) \<Longrightarrow> \<exists>g. g \<noteq> [] \<and> r = g @ r'"
proof (cases r)
  case Nil
  assume "r' \<in> set (plus_cls P r)"
  with Nil show ?thesis by (simp add: plus_cls_def)
next
  case (Cons c cs)
  assume "r' \<in> set (plus_cls P r)"
  with Cons have "r' \<in> set (star_cls P cs)" by (auto simp: plus_cls_def split: if_splits)
  from star_cls_suffix[OF this] obtain a where "cs = a @ r'" by blast
  with Cons have "r = (c # a) @ r'" by simp
  then show ?thesis by blast
qed

lemma re_after_group1:
  assumes "re_after s = Some (Some n, g2)"
  shows "n \<noteq> [] \<and> (\<exists>a b. s = a @ n @ b)"
proof -
  let ?f = "\<lambda>r. case r of [] \<Rightarrow> [] | c # cs \<Rightarrow> if is_punct c then [[c]] else []"
  let ?l = "List.bind (star_cls (\<lambda>c. \<not> is_word c) s) ?f"
  from assms obtain rest where l: "?l = n # rest"
    by (auto simp: re_after_def split: list.splits)
  then have "n \<in> set ?l" by simp
  then obtain r where r: "r \<in> set (star_cls (\<lambda>c. \<not> is_word c) s)" "n \<in> set (?f r)"
    by (auto simp: List.bind_def)
  from r(2) obtain c cs where "r = c # cs" "n = [c]" by (auto split: list.splits if_splits)
  moreover from star_cls_suffix[OF r(1)] obtain a where "s = a @ r" by blast
  ultimately have "s = a @ n @ cs" by simp
  with \<open>n = [c]\<close> show ?thesis by blast
qed

lemma re_after_group2:
  assumes "re_after s = Some (g1, Some n)"
  shows "n \<noteq> [] \<and> (\<exists>a b. s = a @ n @ b)"
proof -
  let ?f = "\<lambda>r. map (\<lambda>r'. take (length r - length r') r) (plus_cls is_word r)"
  let ?l = "List.bind (star_cls (\<lambda>c. \<not> is_word c) s) ?f"
  from assms obtain rest where l: "?l = n # rest"
    by (auto simp: re_after_def split: list.splits)
  then have "n \<in> set ?l" by simp
  then obtain r where r: "r \<in> set (star_cls (\<lambda>c. \<not> is_word c) s)" "n \<in> set (?f r)"
    by (auto simp: List.bind_def)
  from r(2) obtain r' where r': "r' \<in> set (plus_cls is_word r)" "n = take (length r - length r') r"
    by auto
  from plus_cls_suffix[OF r'(1)] obtain g where g: "g \<noteq> []" "r = g @ r'" by blast
  with r'(2) have "n = g" by simp
  moreover from star_cls_suffix[OF r(1)] obtain a where "s = a @ r" by blast
  ultimately have "s = a @ n @ r'" using g(2) by simp
  with \<open>n = g\<close> g(1) show ?thesis by blast
qed

lemma segment_next_occurs:
  assumes "segment_next text end = Some n"
  shows "n \<noteq> [] \<and> (\<exists>a b. slice_from text end = a @ n @ b)"
proof (cases "re_after (slice_from text end)")
  case None
  with assms show ?thesis by (simp add: segment_next_def Let_def js_or_def truthy_def)
next
  case (Some g)
  obtain g1 g2 where g: "g = (g1, g2)" by (cases g)
  from assms Some g have "(g1 = Some n \<or> g2 = Some n) \<and> n \<noteq> []"
    by (auto simp: segment_next_def Let_def js_or_def truthy_def split: if_splits option.splits)
  with Some g re_after_group1[of "slice_from text end" n g2] re_after_group2[of "slice_from text end" g1 n]
  show ?thesis by auto
qed

lemma first_occurrence_alt:
  "first_occurrence s pat pos k \<longleftrightarrow>
     pos \<le> int k \<and> take (length pat) (drop k s) = pat
     \<and> (\<forall>j. pos \<le> int j \<and> j < k \<longrightarrow> take (length pat) (drop j s) \<noteq> pat)"
  by (auto simp: first_occurrence_def)

lemma occurs_from_least:
  "pat \<noteq> [] \<Longrightarrow> take (length pat) (drop j s) = pat \<Longrightarrow>
   \<forall>i<j. take (length pat) (drop i s) \<noteq> pat \<Longrightarrow> occurs_from pat s k = int (k + j)"
proof (induction s arbitrary: j k)
  case Nil
  then show ?case by simp
next
  case (Cons c cs)
  show ?case
  proof (cases j)
    case 0
    with Cons.prems show ?thesis by simp
  next
    case (Suc j')
    with Cons.prems(3) have "take (length pat) (drop 0 (c # cs)) \<noteq> pat" by blast
    then have no: "take (length pat) (c # cs) \<noteq> pat" by simp
    have "occurs_from pat cs (Suc k) = int (Suc k + j')"
    proof (rule Cons.IH[OF Cons.prems(1)])
      show "take (length pat) (drop j' cs) = pat" using Cons.prems(2) Suc by simp
      show "\<forall>i<j'. take (length pat) (drop i cs) \<noteq> pat"
      proof (intro allI impI)
        fix i assume "i < j'"
        then have "Suc i < j" using Suc by simp
        with Cons.prems(3) have "take (length pat) (drop (Suc i) (c # cs)) \<noteq> pat" by blast
        then show "take (length pat) (drop i cs) \<noteq> pat" by simp
      qed
    qed
    with no Suc show ?thesis by simp
  qed
qed

lemma occurrence_inside:
  "pat \<noteq> [] \<Longrightarrow> take (length pat) (drop k s) = pat \<Longrightarrow> k + length pat \<le> length s"
proof -
  assume "pat \<noteq> []" "take (length pat) (drop k s) = pat"
  then have "length (take (length pat) (drop k s)) = length pat" "0 < length pat" by simp_all
  then have "min (length s - k) (length pat) = length pat" "0 < length pat"
    unfolding length_take length_drop by simp_all
  then show ?thesis by linarith
qed

lemma indexOf_first:
  assumes "n \<noteq> []" "slice_from text end = a @ n @ b"
  shows "\<exists>k. indexOf text n end = int k \<and> first_occurrence text n end k"
proof -
  let ?len = "length text"
  let ?start = "nat (min (max end 0) (int ?len))"
  let ?rel = "rel_index ?len end"
  let ?occ = "\<lambda>j. take (length n) (drop j (drop ?start text)) = n"
  have inside: "end \<le> int ?len"
  proof (rule ccontr)
    assume "\<not> end \<le> int ?len"
    then have "slice_from text end = []" by (simp add: slice_from_def rel_index_def)
    with assms show False by simp
  qed
  then have start: "?start = nat (max end 0)" "int ?start = max end 0" by auto
  have le: "?start \<le> ?rel" using inside by (auto simp: rel_index_def)
  have "drop ?rel text = a @ n @ b" using assms(2) by (simp add: slice_from_def)
  then have "take (length n) (drop (length a) (drop ?rel text)) = n" by simp
  then have "take (length n) (drop (length a + ?rel) text) = n" by (simp add: add.commute)
  moreover have "length a + ?rel = (length a + ?rel - ?start) + ?start" using le by simp
  ultimately have "?occ (length a + ?rel - ?start)" by (simp add: add.commute)
  then have ex: "\<exists>j. ?occ j" by blast
  define j where "j = (LEAST j. ?occ j)"
  have occ: "?occ j" unfolding j_def using ex by (rule LeastI_ex)
  have least: "\<forall>i<j. \<not> ?occ i" unfolding j_def using not_less_Least by blast
  have io: "indexOf text n end = int (?start + j)"
    using occurs_from_least[OF assms(1) occ least, of ?start] by (simp add: indexOf_def Let_def)
  have "first_occurrence text n end (?start + j)"
    unfolding first_occurrence_alt
  proof (intro conjI allI impI)
    show "end \<le> int (?start + j)" using start(2) by simp
    show "take (length n) (drop (?start + j) text) = n" using occ by (simp add: add.commute)
    fix i assume i: "end \<le> int i \<and> i < ?start + j"
    then have "max end 0 \<le> int i" by simp
    then have "int ?start \<le> int i" by (simp only: start(2))
    then have "?start \<le> i" by (simp only: of_nat_le_iff)
    then obtain d where d: "i = ?start + d" using le_Suc_ex by blast
    with i have "d < j" by simp
    with least have "\<not> ?occ d" by blast
    then show "take (length n) (drop i text) \<noteq> n" using d by (simp add: add.commute)
  qed
  with io show ?thesis by blast
qed

lemma first_occurrence_unique:
  "first_occurrence s pat pos k \<Longrightarrow> first_occurrence s pat pos k' \<Longrightarrow> k = k'"
  unfolding first_occurrence_alt by (metis linorder_neqE_nat)

lemma hasMoreContent_Some:
  assumes "n \<noteq> []" "indexOf text n end = int k" "k + length n \<le> length text"
  shows "hasMoreContent text end (Some n) \<longleftrightarrow> (\<exists>c\<in>set (drop (k + length n) text). \<not> is_space c)"
proof -
  have "slice_from text (int k + int (length n)) = drop (k + length n) text"
    using assms(3) slice_from_inside[of "int k + int (length n)" "text"] by (simp add: nat_add_distrib)
  then show ?thesis using assms(1,2) trim_nonempty[of "drop (k + length n) text"]
    by (simp add: hasMoreContent_def)
qed

text \<open>
  Claim C8. \<open>hasMoreContent\<close> is true exactly when \<open>next\<close> is not null and something
  other than whitespace follows the first occurrence of the string \<open>next\<close> found
  searching forward from the end offset of the range (which need not be where \<open>next\<close>
  was matched); the context is the context built so far, with \<open> [...] \<close> appended when
  \<open>hasMoreContent\<close> is true, then collapsed and trimmed.
\<close>

theorem hasMoreContent_first_occurrence:
  "(hasMoreContent text end (segment_next text end) \<longleftrightarrow>
      (\<exists>n k. segment_next text end = Some n \<and> first_occurrence text n end k
             \<and> (\<exists>c\<in>set (drop (k + length n) text). \<not> is_space c)))
   \<and> seg_next (extractTextSegment text (start, end) index) = segment_next text end
   \<and> seg_context (extractTextSegment text (start, end) index) =
       trim (collapse_ws
         (context_before_ellipsis index (segment_previous text start)
            (trim (slice text start end)) (segment_next text end)
          @ (if hasMoreContent text end (segment_next text end) then '' [...] '' else [])))"
proof -
  have iff: "hasMoreContent text end (segment_next text end) \<longleftrightarrow>
      (\<exists>n k. segment_next text end = Some n \<and> first_occurrence text n end k
             \<and> (\<exists>c\<in>set (drop (k + length n) text). \<not> is_space c))"
  proof (cases "segment_next text end")
    case None
    then show ?thesis by (simp add: hasMoreContent_def)
  next
    case (Some n)
    from segment_next_occurs[OF Some] obtain a b
      where n: "n \<noteq> []" "slice_from text end = a @ n @ b" by blast
    from indexOf_first[OF n] obtain k
      where k: "indexOf text n end = int k" "first_occurrence text n end k" by blast
    from k(2) have "take (length n) (drop k text) = n" by (simp add: first_occurrence_alt)
    from occurrence_inside[OF n(1) this] have inside: "k + length n \<le> length text" .
    note hm = hasMoreContent_Some[OF n(1) k(1) inside]
    show ?thesis
    proof
      assume "hasMoreContent text end (segment_next text end)"
      with Some hm k(2) show "\<exists>n k. segment_next text end = Some n \<and> first_occurrence text n end k
             \<and> (\<exists>c\<in>set (drop (k + length n) text). \<not> is_space c)"
        by auto
    next
      assume "\<exists>n k. segment_next text end = Some n \<and> first_occurrence text n end k
             \<and> (\<exists>c\<in>set (drop (k + length n) text). \<not> is_space c)"
      then obtain k' where k': "first_occurrence text n end k'"
        "\<exists>c\<in>set (drop (k' + length n) text). \<not> is_space c"
        using Some by auto
      from first_occurrence_unique[OF k(2) k'(1)] have "k = k'" .
      with k'(2) hm Some show "hasMoreContent text end (segment_next text end)" by simp
    qed
  qed
  have ctx: "seg_context (extractTextSegment text (start, end) index) =
       trim (collapse_ws
         (context_before_ellipsis index (segment_previous text start)
            (trim (slice text start end)) (segment_next text end)
          @ (if hasMoreContent text end (segment_next text end) then '' [...] '' else [])))"
    by (simp add: extractTextSegment_def Let_def)
  have nx: "seg_next (extractTextSegment text (start, end) index) = segment_next text end"
    by (simp add: extractTextSegment_def Let_def)
  from iff ctx nx show ?thesis by blast
qed

text \<open>
  In \<open>a!!\<close> after the range \<open>[0,1]\<close> the expression matches the second \<open>!\<close>, the search
  finds the first, and the other \<open>!\<close> counts as more content.
\<close>

theorem hasMoreContent_first_occurrence_witness:
  "segment_next ''a!!'' 1 = Some ''!''
   \<and> first_occurrence ''a!!'' ''!'' 1 1
   \<and> hasMoreContent ''a!!'' 1 (segment_next ''a!!'' 1)
   \<and> seg_context (extractTextSegment ''a!!'' (0, 1) 0) = ''<em>a</em>! [...]''"
proof -
  have n: "segment_next ''a!!'' 1 = Some ''!''" by code_simp
  have f: "first_occurrence ''a!!'' ''!'' 1 1" by (simp add: first_occurrence_def)
  have "\<exists>c\<in>set (drop (1 + length ''!'') ''a!!''). \<not> is_space c" by (simp add: is_space_def)
  with n f have "\<exists>n k. segment_next ''a!!'' 1 = Some n \<and> first_occurrence ''a!!'' n 1 k
             \<and> (\<exists>c\<in>set (drop (k + length n) ''a!!''). \<not> is_space c)"
    by blast
  then have h: "hasMoreContent ''a!!'' 1 (segment_next ''a!!'' 1)"
    using hasMoreContent_first_occurrence[of "''a!!''" 1 0 0] by blast
  have "seg_context (extractTextSegment ''a!!'' (0, 1) 0) = ''<em>a</em>! [...]''" by code_simp
  with n f h show ?thesis by blast
qed

section \<open>excerptHighlighting: proofs\<close>

lemma fold_excerpt_step:
  "i < length segs \<Longrightarrow>
   snd (fold excerpt_step [i..<length segs] (segs, out))
   = out @ seg_context (segs ! i)
         @ concat (map (\<lambda>s. replace_leading_ellipsis (seg_context s)) (drop (Suc i) segs))"
proof (induction "length segs - i" arbitrary: i segs out)
  case 0
  then show ?case by simp
next
  case (Suc d)
  let ?R = "\<lambda>s. replace_leading_ellipsis (seg_context s)"
  have upt: "[i..<length segs] = i # [Suc i..<length segs]"
    using Suc.prems by (simp add: upt_rec)
  show ?case
  proof (cases "Suc i < length segs")
    case False
    with Suc.prems have "Suc i = length segs" by simp
    then have "[Suc i..<length segs] = []" "drop (Suc i) segs = []" by simp_all
    with False show ?thesis by (simp add: upt excerpt_step_def Let_def)
  next
    case True
    let ?segs' = "segs[Suc i := (segs ! Suc i)\<lparr>seg_context := ?R (segs ! Suc i)\<rparr>]"
    have step: "excerpt_step i (segs, out) = (?segs', out @ seg_context (segs ! i))"
      using True by (simp add: excerpt_step_def Let_def)
    have len: "length ?segs' = length segs" by simp
    have d: "d = length ?segs' - Suc i" using Suc.hyps(2) by simp
    have ih: "snd (fold excerpt_step [Suc i..<length ?segs'] (?segs', out @ seg_context (segs ! i)))
              = (out @ seg_context (segs ! i)) @ seg_context (?segs' ! Suc i)
                @ concat (map ?R (drop (Suc (Suc i)) ?segs'))"
      using True by (intro Suc.hyps(1)[OF d]) simp
    have nth: "seg_context (?segs' ! Suc i) = ?R (segs ! Suc i)" using True by simp
    have dr: "drop (Suc (Suc i)) ?segs' = drop (Suc (Suc i)) segs" by simp
    have dsplit: "drop (Suc i) segs = segs ! Suc i # drop (Suc (Suc i)) segs"
      using True by (simp add: Cons_nth_drop_Suc)
    have "snd (fold excerpt_step [i..<length segs] (segs, out))
          = snd (fold excerpt_step [Suc i..<length ?segs'] (?segs', out @ seg_context (segs ! i)))"
      by (simp add: upt step del: upt.simps)
    also note ih
    finally show ?thesis by (simp add: nth dr dsplit del: upt.simps)
  qed
qed

lemma collapse_ws_marker:
  "collapse_ws (''[...] '' @ x) = ''[...] '' @ collapse_ws (dropWhile is_space x)"
  by (simp add: is_space_def)

lemma trim_marker:
  "\<not> is_space c \<Longrightarrow> trim (''[...] '' @ c # z) = ''[...] '' @ c # rstrip z"
proof -
  assume c: "\<not> is_space c"
  have "dropWhile is_space (''[...] '' @ c # z) = ''[...] '' @ c # z" by (simp add: is_space_def)
  then have "trim (''[...] '' @ c # z) = rstrip (''[...] '' @ c # z)" by (simp only: trim_rstrip)
  also have "\<dots> = ''[...] '' @ c # rstrip z" by (rule rstrip_append_nonspace[OF c])
  finally show ?thesis .
qed

lemma previous_head:
  "segment_previous text start = Some p \<Longrightarrow> p = [] \<or> \<not> is_space (hd p)"
  using trim_head by (auto simp: segment_previous_def Let_def split: option.splits)

lemma context_later_shape:
  assumes "0 < index"
  shows "\<exists>c w. \<not> is_space c \<and> seg_context (extractTextSegment text r index) = ''[...] '' @ c # w"
proof -
  obtain s e where r: "r = (s, e)" by (cases r)
  let ?prev = "segment_previous text s"
  let ?P = "case ?prev of None \<Rightarrow> [] | Some p \<Rightarrow> p"
  define tail where "tail = seg_target (extractTextSegment text r index) @ ''</em>''
      @ (case segment_next text e of None \<Rightarrow> []
          | Some n \<Rightarrow> if n = [] then [] else if re_test_punct n then n else '' '' @ n)
      @ (if hasMoreContent text e (segment_next text e) then '' [...] '' else [])"
  have ctx: "seg_context (extractTextSegment text r index)
             = trim (collapse_ws (''[...] '' @ (?P @ '' <em>'' @ tail)))"
    using assms by (simp add: extractTextSegment_def r Let_def context_before_ellipsis_def tail_def)
  have "\<exists>c y. \<not> is_space c \<and> dropWhile is_space (?P @ '' <em>'' @ tail) = c # y"
  proof (cases "?P")
    case Nil
    then show ?thesis by (simp add: is_space_def)
  next
    case (Cons h t)
    then obtain p where "?prev = Some p" "p = h # t" by (auto split: option.splits)
    with previous_head[of "text" s p] have "\<not> is_space h" by simp
    with Cons show ?thesis by simp
  qed
  then obtain c y where c: "\<not> is_space c" "dropWhile is_space (?P @ '' <em>'' @ tail) = c # y"
    by blast
  have "collapse_ws (''[...] '' @ (?P @ '' <em>'' @ tail)) = ''[...] '' @ collapse_ws (c # y)"
    by (simp only: collapse_ws_marker c(2))
  also have "\<dots> = ''[...] '' @ c # collapse_ws y" using c(1) by simp
  finally have "seg_context (extractTextSegment text r index) = ''[...] '' @ c # rstrip (collapse_ws y)"
    using ctx trim_marker[OF c(1)] by simp
  with c(1) show ?thesis by blast
qed

lemma replace_leading_ellipsis_shape:
  "\<not> is_space c \<Longrightarrow>
   replace_leading_ellipsis (''[...] '' @ c # w) = spec_rewrite_leading_marker (''[...] '' @ c # w)"
  by (simp add: spec_rewrite_leading_marker_def is_dot_def is_space_def)

lemma nth_drop_one: "Suc i < length xs \<Longrightarrow> drop (Suc 0) xs ! i = xs ! Suc i"
  by (cases xs) auto

lemma nth_extract_segments:
  "i < length ranges \<Longrightarrow> extract_segments text ranges ! i = extractTextSegment text (ranges ! i) i"
  by (simp add: extract_segments_def nth_enumerate_eq)

lemma length_extract_segments: "length (extract_segments text ranges) = length ranges"
  by (simp add: extract_segments_def)

lemma rewrite_later_segments:
  "map (\<lambda>s. replace_leading_ellipsis (seg_context s)) (drop (Suc 0) (extract_segments text ranges))
   = map spec_rewrite_leading_marker (drop (Suc 0) (map seg_context (extract_segments text ranges)))"
proof (rule nth_equalityI)
  show "length (map (\<lambda>s. replace_leading_ellipsis (seg_context s)) (drop (Suc 0) (extract_segments text ranges)))
        = length (map spec_rewrite_leading_marker (drop (Suc 0) (map seg_context (extract_segments text ranges))))"
    by simp
next
  fix i
  assume "i < length (map (\<lambda>s. replace_leading_ellipsis (seg_context s)) (drop (Suc 0) (extract_segments text ranges)))"
  then have i: "Suc i < length ranges" by (simp add: length_extract_segments)
  from context_later_shape[of "Suc i" "text" "ranges ! Suc i"]
  obtain c w where cw: "\<not> is_space c"
    "seg_context (extractTextSegment text (ranges ! Suc i) (Suc i)) = ''[...] '' @ c # w" by auto
  have "seg_context (extract_segments text ranges ! Suc i) = ''[...] '' @ c # w"
    using i cw(2) by (simp add: nth_extract_segments)
  moreover have "replace_leading_ellipsis (''[...] '' @ c # w) = spec_rewrite_leading_marker (''[...] '' @ c # w)"
    by (rule replace_leading_ellipsis_shape[OF cw(1)])
  ultimately have eq: "replace_leading_ellipsis (seg_context (extract_segments text ranges ! Suc i))
        = spec_rewrite_leading_marker (seg_context (extract_segments text ranges ! Suc i))"
    by simp
  have nd: "drop (Suc 0) (extract_segments text ranges) ! i = extract_segments text ranges ! Suc i"
    using i by (intro nth_drop_one) (simp add: length_extract_segments)
  have "map (\<lambda>s. replace_leading_ellipsis (seg_context s)) (drop (Suc 0) (extract_segments text ranges)) ! i
        = replace_leading_ellipsis (seg_context (extract_segments text ranges ! Suc i))"
    using i nd by (simp add: length_extract_segments)
  moreover have "map spec_rewrite_leading_marker (drop (Suc 0) (map seg_context (extract_segments text ranges))) ! i
        = spec_rewrite_leading_marker (seg_context (extract_segments text ranges ! Suc i))"
    using i by (simp add: length_extract_segments nth_drop_one)
  ultimately show "map (\<lambda>s. replace_leading_ellipsis (seg_context s)) (drop (Suc 0) (extract_segments text ranges)) ! i
        = map spec_rewrite_leading_marker (drop (Suc 0) (map seg_context (extract_segments text ranges))) ! i"
    using eq by simp
qed

text \<open>
  Claim C7. In the assembly of the excerpt, the context of every segment that follows
  another has a leading \<open>[...]\<close> with its space rewritten to one space before it is
  appended, and the excerpt is the concatenation of the contexts, rewritten so, trimmed.
  The assembly runs when the text is not empty.
\<close>

theorem excerptHighlighting_assembly:
  assumes "text \<noteq> []"
  shows "excerptHighlighting text ranges = spec_assemble (map seg_context (extract_segments text ranges))"
proof (cases "ranges = []")
  case True
  then show ?thesis by (simp add: excerptHighlighting_def extract_segments_def trim_def)
next
  case False
  let ?segs = "extract_segments text ranges"
  from False have n: "0 < length ?segs" by (simp add: length_extract_segments)
  then obtain s0 rest where segs: "?segs = s0 # rest" by (cases ?segs) auto
  have "snd (fold excerpt_step [0..<length ?segs] (?segs, []))
        = [] @ seg_context (?segs ! 0)
          @ concat (map (\<lambda>s. replace_leading_ellipsis (seg_context s)) (drop (Suc 0) ?segs))"
    by (rule fold_excerpt_step[OF n])
  also have "\<dots> = seg_context (?segs ! 0)
          @ concat (map spec_rewrite_leading_marker (drop (Suc 0) (map seg_context ?segs)))"
    by (simp only: rewrite_later_segments append_Nil)
  finally have "snd (fold excerpt_step [0..<length ?segs] (?segs, []))
        = seg_context s0 @ concat (map spec_rewrite_leading_marker (map seg_context rest))"
    by (simp add: segs)
  then have "trim (snd (fold excerpt_step [0..<length ?segs] (?segs, [])))
        = spec_assemble (map seg_context ?segs)"
    by (simp add: segs)
  with assms False show ?thesis by (simp add: excerptHighlighting_def Let_def)
qed

theorem excerptHighlighting_assembly_witness:
  "excerptHighlighting ''ab cd ef gh'' [(3, 5), (9, 11)]
     = spec_assemble [''ab <em>cd</em> ef [...]'', ''[...] ef <em>gh</em>'']
   \<and> spec_assemble [''ab <em>cd</em> ef [...]'', ''[...] ef <em>gh</em>'']
     = ''ab <em>cd</em> ef [...] ef <em>gh</em>''"
proof -
  have m: "map seg_context (extract_segments ''ab cd ef gh'' [(3, 5), (9, 11)])
           = [''ab <em>cd</em> ef [...]'', ''[...] ef <em>gh</em>'']"
    by code_simp
  have a: "spec_assemble [''ab <em>cd</em> ef [...]'', ''[...] ef <em>gh</em>'']
           = ''ab <em>cd</em> ef [...] ef <em>gh</em>''"
    by code_simp
  have "''ab cd ef gh'' \<noteq> []" by simp
  from excerptHighlighting_assembly[OF this, of "[(3, 5), (9, 11)]"] show ?thesis
    unfolding m using a by simp
qed

end
